theory Spec2Isabelle
  imports Main "HOL-Library.Sublist" "HOL-Library.Multiset"
begin

section \<open>The sandbox preview of kibo-ui: apps/docs/components/preview/index.tsx\<close>

text \<open>
  The module turns the source text of a demo into the files and the package manifests
  of a sandbox: it rewrites registry paths, scans the text for shadcn components, loads
  each component's JSON record, and merges the declared packages.

  A JavaScript string is a sequence of UTF-16 code units. The model uses \<open>string\<close>; a
  \<open>char\<close> stands for one code unit below 256. The regular expressions of the module
  have no \<open>u\<close> flag and work on code units, so nothing is lost on such texts; the line
  terminators U+2028 and U+2029 and the Unicode spaces above U+00FF lie outside the type.
\<close>

subsection \<open>Regular expressions and string primitives\<close>

text \<open>\<open>registryRegex = /@\/registry\/new-york\/ui\//g\<close> matches this literal.\<close>

definition registryPath :: string where
  "registryPath = ''@/registry/new-york/ui/''"

text \<open>
  The literal head of \<open>kiboRegex = /@\/components\/ui\/(?!kibo-ui\/)([^'"\s]+)/g\<close>,
  which is also the replacement text of \<open>parseContent\<close>.
\<close>

definition componentsPath :: string where
  "componentsPath = ''@/components/ui/''"

text \<open>The text the negative lookahead \<open>(?!kibo-ui\/)\<close> refuses.\<close>

definition kiboSegment :: string where
  "kiboSegment = ''kibo-ui/''"

text \<open>
  \<open>.\<close> in a regular expression without the \<open>s\<close> flag matches every code unit but a
  line terminator: LF and CR (and U+2028, U+2029).
\<close>

definition lineTerminator :: "char \<Rightarrow> bool" where
  "lineTerminator c = (c = CHR 0x0A \<or> c = CHR 0x0D)"

text \<open>
  \<open>\s\<close>: TAB, LF, VT, FF, CR, SPACE and NBSP (and the Unicode spaces above U+00FF).
\<close>

definition whiteSpace :: "char \<Rightarrow> bool" where
  "whiteSpace c =
     (c = CHR 0x09 \<or> c = CHR 0x0A \<or> c = CHR 0x0B \<or> c = CHR 0x0C \<or> c = CHR 0x0D \<or>
      c = CHR 0x20 \<or> c = CHR 0xA0)"

text \<open>The character class \<open>[^'"\s]\<close>.\<close>

definition componentChar :: "char \<Rightarrow> bool" where
  "componentChar c = (c \<noteq> CHR 0x27 \<and> c \<noteq> CHR 0x22 \<and> \<not> whiteSpace c)"

text \<open>
  \<open>String.prototype.replace\<close> with a string pattern replaces the first occurrence only.
  The replacement text is taken literally (the module only passes \<open>''\<close>).
\<close>

fun replaceFirst :: "string \<Rightarrow> string \<Rightarrow> string \<Rightarrow> string" where
  "replaceFirst pat rep [] = (if pat = [] then rep else [])"
| "replaceFirst pat rep (c # cs) =
     (if prefix pat (c # cs) then rep @ drop (length pat) (c # cs)
      else c # replaceFirst pat rep cs)"

text \<open>
  \<open>[...new Set(xs)]\<close>: a Set keeps the first occurrence of every element, in insertion
  order.
\<close>

definition newSet :: "'a list \<Rightarrow> 'a list" where
  "newSet xs = fold (\<lambda>x seen. if x \<in> set seen then seen else seen @ [x]) xs []"

subsection \<open>parseDependencyVersion\<close>

text \<open>
  \<open>dependencyRegex = /^(.+?)(?:@(.+))?$/\<close>. Group 1 is lazy: the matcher tries the
  shortest name first. With \<open>name\<close> matched and \<open>rest\<close> left, it first tries the optional
  group, which needs an \<open>@\<close> and then at least one character, none of them a line
  terminator, up to the end of the input (\<open>$\<close> has no \<open>m\<close> flag); failing that it tries
  \<open>$\<close> at once; failing that it gives one more character to the name. The result is the
  pair of captures; the second is \<open>None\<close> when the optional group took no part.
\<close>

fun dependencyGroups :: "string \<Rightarrow> string \<Rightarrow> (string \<times> string option) option" where
  "dependencyGroups name [] = Some (name, None)"
| "dependencyGroups name (c # cs) =
     (if c = CHR ''@'' \<and> cs \<noteq> [] \<and> list_all (\<lambda>x. \<not> lineTerminator x) cs
      then Some (name, Some cs)
      else if lineTerminator c then None
      else dependencyGroups (name @ [c]) cs)"

text \<open>\<open>dependency.match(dependencyRegex)?.slice(1)\<close>; \<open>None\<close> is a failed match.\<close>

definition dependencyMatch :: "string \<Rightarrow> (string \<times> string option) option" where
  "dependencyMatch dependency =
     (case dependency of
        [] \<Rightarrow> None
      | c # cs \<Rightarrow> if lineTerminator c then None else dependencyGroups [c] cs)"

text \<open>
  The object \<open>{ name, version: version ?? 'latest' }\<close>. After a failed match the
  destructured array is \<open>[]\<close> and \<open>name\<close> is \<open>undefined\<close>: \<open>dep_name\<close> is \<open>None\<close>.
\<close>

record dependency_version =
  dep_name :: "string option"
  dep_version :: string

definition parseDependencyVersion :: "string \<Rightarrow> dependency_version" where
  "parseDependencyVersion dependency =
     (case dependencyMatch dependency of
        None \<Rightarrow> \<lparr>dep_name = None, dep_version = ''latest''\<rparr>
      | Some (name, version) \<Rightarrow>
          \<lparr>dep_name = Some name,
           dep_version = (case version of None \<Rightarrow> ''latest'' | Some v \<Rightarrow> v)\<rparr>)"

subsection \<open>parseContent\<close>

text \<open>
  \<open>content.replace(registryRegex, '@/components/ui/')\<close>: a global replace walks the text
  from the left, replaces a match and goes on behind it.
\<close>

function parseContent :: "string \<Rightarrow> string" where
  "parseContent [] = []"
| "parseContent (c # cs) =
     (if prefix registryPath (c # cs)
      then componentsPath @ parseContent (drop (length registryPath) (c # cs))
      else c # parseContent cs)"
  by pat_completeness auto
termination
  by (relation "measure length") (auto simp: registryPath_def)

subsection \<open>Object records used as maps\<close>

text \<open>
  \<open>Record<string, string>\<close> created by \<open>{}\<close>: the map holds the own properties. A value
  read from JSON or passed by the caller is a list of entries in enumeration order
  (\<open>Object.values\<close> walks it in that order); \<open>None\<close> is \<open>undefined\<close>.
\<close>

type_synonym jsobject = "string \<rightharpoonup> string"

type_synonym entries = "(string \<times> string) list"

text \<open>
  \<open>target[key] = value\<close> with a string value on an object whose prototype is
  \<open>Object.prototype\<close>: the key \<open>__proto__\<close> reaches the prototype's setter, which ignores
  a value that is neither an object nor null; every other key becomes an own property.
\<close>

definition assign :: "string \<Rightarrow> string \<Rightarrow> jsobject \<Rightarrow> jsobject" where
  "assign key v target = (if key = ''__proto__'' then target else target(key \<mapsto> v))"

text \<open>A property key is a string: \<open>undefined\<close> becomes \<open>"undefined"\<close>.\<close>

definition propertyKey :: "string option \<Rightarrow> string" where
  "propertyKey n = (case n of None \<Rightarrow> ''undefined'' | Some s \<Rightarrow> s)"

subsection \<open>processDependencies\<close>

definition processDependencies :: "entries option \<Rightarrow> jsobject \<Rightarrow> jsobject" where
  "processDependencies deps target =
     (case deps of
        None \<Rightarrow> target
      | Some ds \<Rightarrow>
          fold (\<lambda>dep t.
                  let p = parseDependencyVersion dep
                  in assign (propertyKey (dep_name p)) (dep_version p) t)
               (map snd ds) target)"

subsection \<open>The scan for shadcn components\<close>

text \<open>
  One attempt of \<open>kiboRegex\<close> at the head of \<open>s\<close>: the literal path, then the lookahead,
  then the longest non-empty run of \<open>[^'"\s]\<close> (greedy, and nothing follows it in the
  expression, so there is no backtracking). The result is the matched text.
\<close>

definition kiboMatchAt :: "string \<Rightarrow> string option" where
  "kiboMatchAt s =
     (if prefix componentsPath s then
        (let rest = drop (length componentsPath) s in
         if prefix kiboSegment rest then None
         else (case takeWhile componentChar rest of
                 [] \<Rightarrow> None
               | c # cs \<Rightarrow> Some (componentsPath @ c # cs)))
      else None)"

lemma kiboMatchAt_length: "kiboMatchAt s = Some m \<Longrightarrow> 0 < length m"
  by (auto simp: kiboMatchAt_def Let_def split: if_splits list.splits)

text \<open>
  All matches of the global expression, from the left; the search goes on behind a match.
\<close>

function kiboMatches :: "string \<Rightarrow> string list" where
  "kiboMatches [] = []"
| "kiboMatches (c # cs) =
     (case kiboMatchAt (c # cs) of
        None \<Rightarrow> kiboMatches cs
      | Some m \<Rightarrow> m # kiboMatches (drop (length m) (c # cs)))"
  by pat_completeness auto
termination
  by (relation "measure length") (auto dest: kiboMatchAt_length)

text \<open>\<open>parsedString.match(kiboRegex)\<close> is \<open>null\<close> when nothing matches.\<close>

definition matchKibo :: "string \<Rightarrow> string list option" where
  "matchKibo s = (case kiboMatches s of [] \<Rightarrow> None | m # ms \<Rightarrow> Some (m # ms))"

text \<open>
  Lines 58 to 68 of \<open>parseShadcnComponents\<close>: the components the text names, or no
  component when \<open>matches\<close> is \<open>null\<close>.
\<close>

definition referencedComponents :: "string \<Rightarrow> string list" where
  "referencedComponents str =
     (let parsedString = parseContent str in
      case matchKibo parsedString of
        None \<Rightarrow> []
      | Some matches \<Rightarrow> newSet (map (\<lambda>m. replaceFirst componentsPath [] m) matches))"

text \<open>
  What the scan is to find, said of the text and not of the search. A word is a run
  of characters other than quotes and white space that is as long as it can be. The
  word \<open>u @/components/ui/ c\<close> refers to \<open>c\<close> when \<open>c\<close> is not empty and does not
  start with \<open>kibo-ui/\<close>, and every path that starts in \<open>u\<close> leads under \<open>kibo-ui/\<close>:
  the path in front of \<open>c\<close> is the first of the word that the lookahead lets pass.
\<close>

definition wordReference :: "string \<Rightarrow> string \<Rightarrow> bool" where
  "wordReference u c \<longleftrightarrow>
     list_all componentChar (u @ c) \<and> c \<noteq> [] \<and> \<not> prefix kiboSegment c \<and>
     (\<forall>u1 u2. u = u1 @ u2 \<and> u2 \<noteq> [] \<and> prefix componentsPath (u2 @ componentsPath @ c) \<longrightarrow>
        prefix (componentsPath @ kiboSegment) (u2 @ componentsPath @ c))"

text \<open>The text \<open>t\<close> has a word that refers to \<open>c\<close>.\<close>

definition references :: "string \<Rightarrow> string \<Rightarrow> bool" where
  "references t c \<longleftrightarrow>
     (\<exists>pre u post. t = pre @ u @ componentsPath @ c @ post \<and>
        (pre = [] \<or> \<not> componentChar (last pre)) \<and>
        (post = [] \<or> \<not> componentChar (hd post)) \<and>
        wordReference u c)"

subsection \<open>Modules and results\<close>

text \<open>
  A JSON record under \<open>./shadcn/\<close>. \<open>shadcn_files\<close> lists the \<open>content\<close> of each entry of
  \<open>files\<close>.
\<close>

record shadcn_module =
  shadcn_name :: string
  shadcn_dependencies :: "entries option"
  shadcn_devDependencies :: "entries option"
  shadcn_files :: "string list option"

text \<open>A JSON record under \<open>../../public/registry/\<close>.\<close>

record registry_module =
  registry_dependencies :: "entries option"
  registry_devDependencies :: "entries option"
  registry_registryDependencies :: "entries option"
  registry_files :: "string list option"

text \<open>
  What the module imports: the two directories of JSON records, keyed by the text put
  into the import path (\<open>None\<close>: the dynamic import rejects), and the three texts of
  \<open>./tsconfig\<close>, \<open>./utils\<close> and \<open>./content\<close>, which this file does not define.
\<close>

record module_store =
  shadcnJson :: "string \<Rightarrow> shadcn_module option"
  registryJson :: "string \<Rightarrow> registry_module option"
  tsconfig :: string
  utils :: string
  content :: string

text \<open>The value \<open>{ files, dependencies, devDependencies }\<close> of \<open>parseShadcnComponents\<close>.\<close>

record parsed =
  files :: jsobject
  dependencies :: jsobject
  devDependencies :: jsobject

text \<open>
  What a call does besides returning. \<open>Import c\<close>: it evaluates
  \<open>import(`./shadcn/${c}.json`)\<close>; where the import resolves, the scan of the loaded
  text follows. \<open>Warn c\<close>: the import has failed and \<open>console.warn\<close> says so. A call
  issues the imports of all its components before any of them settles, and in which
  order the inner calls then run depends on when the imports settle: the model keeps
  how often each event happens, as a multiset, and no order.
\<close>

datatype effect = Import string | Warn string

text \<open>\<open>mod.files?.[0]?.content ?? ''\<close>\<close>

definition firstContent :: "string list option \<Rightarrow> string" where
  "firstContent fs = (case fs of None \<Rightarrow> [] | Some [] \<Rightarrow> [] | Some (f # _) \<Rightarrow> f)"

definition componentFile :: "string \<Rightarrow> string" where
  "componentFile n = ''/components/ui/'' @ n @ ''.tsx''"

subsection \<open>parseShadcnComponents\<close>

text \<open>The three fresh objects a call starts from.\<close>

definition emptyParsed :: parsed where
  "emptyParsed = \<lparr>files = Map.empty, dependencies = Map.empty, devDependencies = Map.empty\<rparr>"

text \<open>
  What both loaders do with a loaded record \<open>m\<close> (lines 80 to 86, and again lines 138
  to 143): the first file's rewritten text goes under the record's name, and the
  record's packages go into the two manifests.
\<close>

definition storeComponent :: "shadcn_module \<Rightarrow> parsed \<Rightarrow> parsed" where
  "storeComponent m r =
     (let componentContent = firstContent (shadcn_files m)
      in r\<lparr>files :=
             (files r)(componentFile (shadcn_name m) \<mapsto> parseContent componentContent),
           dependencies := processDependencies (shadcn_dependencies m) (dependencies r),
           devDependencies :=
             processDependencies (shadcn_devDependencies m) (devDependencies r)\<rparr>)"

text \<open>
  \<open>await Promise.all(xs.map(async (x) => ...))\<close> over callbacks that never reject: every
  callback runs to its end, and the call returns when all of them have. The callbacks
  share the objects they write to; the model runs them in the order of the list, which
  is one of the schedules. \<open>None\<close> is a callback that never settles.
\<close>

fun forEach :: "'a list \<Rightarrow> ('a \<Rightarrow> 's \<Rightarrow> 's option) \<Rightarrow> 's \<Rightarrow> 's option" where
  "forEach [] f s = Some s"
| "forEach (x # xs) f s = Option.bind (f x s) (forEach xs f)"

lemma forEach_mono [partial_function_mono]:
  assumes "\<And>x s. mono_option (\<lambda>g. B g x s)"
  shows "mono_option (\<lambda>g. forEach xs (B g) s)"
proof (induction xs arbitrary: s)
  case Nil
  show ?case by (simp add: option.const_mono)
next
  case (Cons x xs)
  show ?case
    unfolding forEach.simps
    by (rule bind_mono) (rule assms, rule Cons.IH)
qed

text \<open>
  The call recurses into the text of every component it loads and drops what the inner
  call returns: the inner \<open>files\<close>, \<open>dependencies\<close> and \<open>devDependencies\<close> are fresh
  objects of that call. The call returns once every inner call has returned; \<open>None\<close>
  means that it never does. A failed import is caught and leaves a warning. The second
  component of the result holds what the call did besides: the imports and warnings of
  the call and of the calls inside it.
\<close>

partial_function (option) parseShadcnComponents ::
    "(string \<Rightarrow> shadcn_module option) \<Rightarrow> string \<Rightarrow> (parsed \<times> effect multiset) option" where
  "parseShadcnComponents shadcn str =
     forEach (referencedComponents str)
       (\<lambda>component st.
          case shadcn component of
            None \<Rightarrow> Some (fst st, snd st + {#Import component, Warn component#})
          | Some m \<Rightarrow>
              Option.bind (parseShadcnComponents shadcn (firstContent (shadcn_files m)))
                (\<lambda>inner. Some (storeComponent m (fst st),
                                snd st + {#Import component#} + snd inner)))
       (emptyParsed, {#})"

text \<open>The unfolding equation computes wherever the call returns.\<close>

declare parseShadcnComponents.simps [code]

text \<open>The callback of lines 71 to 92 by itself, for the statements below.\<close>

definition loadComponent ::
    "(string \<Rightarrow> shadcn_module option) \<Rightarrow> string \<Rightarrow> parsed \<times> effect multiset \<Rightarrow>
     (parsed \<times> effect multiset) option" where
  "loadComponent shadcn =
     (\<lambda>component st.
        case shadcn component of
          None \<Rightarrow> Some (fst st, snd st + {#Import component, Warn component#})
        | Some m \<Rightarrow>
            Option.bind (parseShadcnComponents shadcn (firstContent (shadcn_files m)))
              (\<lambda>inner. Some (storeComponent m (fst st),
                              snd st + {#Import component#} + snd inner)))"

subsection \<open>Preview\<close>

record preview_props =
  props_name :: string
  props_code :: string
  props_dependencies :: "entries option"

text \<open>What \<open>Preview\<close> hands to \<open>PreviewProvider\<close>: \<open>customSetup\<close> and \<open>files\<close>.\<close>

record provider_props =
  setup_dependencies :: jsobject
  setup_devDependencies :: jsobject
  provider_files :: jsobject

text \<open>A dynamic import that rejects, with the path it asked for.\<close>

datatype error = ModuleNotFound string

text \<open>
  The object literals of \<open>customSetup\<close>. A later property of a literal replaces an
  earlier one of the same name, and \<open>...deps\<close> stands where the source has it.
\<close>

definition customSetupDependencies :: "jsobject \<Rightarrow> jsobject" where
  "customSetupDependencies deps =
     ([''@radix-ui/react-icons'' \<mapsto> ''latest'',
       ''clsx'' \<mapsto> ''latest'',
       ''tailwind-merge'' \<mapsto> ''latest'',
       ''class-variance-authority'' \<mapsto> ''latest'',
       ''tailwindcss'' \<mapsto> ''latest'',
       ''tailwindcss-animate'' \<mapsto> ''latest''] ++ deps)
     (''date-fns'' \<mapsto> ''latest'')"

definition customSetupDevDependencies :: "jsobject \<Rightarrow> jsobject" where
  "customSetupDevDependencies devDeps =
     [''autoprefixer'' \<mapsto> ''latest'', ''postcss'' \<mapsto> ''latest''] ++ devDeps"

text \<open>
  The callback of lines 130 to 146, behind its import: \<open>m\<close> is the record the import
  resolved to. What the inner \<open>parseShadcnComponents\<close> returns is the callback's value,
  which \<open>Promise.all\<close> collects and \<open>Preview\<close> never reads.
\<close>

definition registryDependency ::
    "(string \<Rightarrow> shadcn_module option) \<Rightarrow> shadcn_module \<Rightarrow> parsed \<Rightarrow> parsed option" where
  "registryDependency shadcn m r =
     Option.bind (parseShadcnComponents shadcn (firstContent (shadcn_files m)))
       (\<lambda>inner. Some (storeComponent m r))"

text \<open>
  Lines 104 to 157 of \<open>Preview\<close>: the three objects as they stand before the
  \<open>return\<close>. \<open>Some (Inl e)\<close>: the promise of \<open>Preview\<close> rejects with \<open>e\<close>;
  \<open>None\<close>: it never settles. Neither import of \<open>Preview\<close> stands in a \<open>try\<close>. All
  imports of one \<open>Promise.all\<close> are issued before any continuation runs, and
  \<open>Promise.all\<close> rejects as soon as one of them has, whatever the other members do.
\<close>

definition assemble :: "module_store \<Rightarrow> preview_props \<Rightarrow> (error + parsed) option" where
  "assemble env props =
     (case registryJson env (props_name props) of
        None \<Rightarrow>
          Some (Inl (ModuleNotFound (''../../public/registry/'' @ props_name props @ ''.json'')))
      | Some registry \<Rightarrow>
          Option.bind (parseShadcnComponents (shadcnJson env) (props_code props))
            (\<lambda>initialParsedComponents.
               let r0 = fst initialParsedComponents;
                   r1 = r0\<lparr>files := (files r0)
                          (''/App.tsx'' \<mapsto> props_code props,
                           ''/tsconfig.json'' \<mapsto> tsconfig env,
                           ''/lib/utils.ts'' \<mapsto> utils env,
                           ''/lib/content.ts'' \<mapsto> content env)\<rparr>;
                   selectedComponentContent = parseContent (firstContent (registry_files registry));
                   registryDependencies =
                     (case registry_registryDependencies registry of
                        None \<Rightarrow> []
                      | Some ds \<Rightarrow> map snd ds)
               in case find (\<lambda>dependency. shadcnJson env dependency = None) registryDependencies of
                    Some dependency \<Rightarrow>
                      Some (Inl (ModuleNotFound (''./shadcn/'' @ dependency @ ''.json'')))
                  | None \<Rightarrow>
                      Option.bind (parseShadcnComponents (shadcnJson env) selectedComponentContent)
                        (\<lambda>selected.
                      Option.bind
                        (forEach (List.map_filter (shadcnJson env) registryDependencies)
                           (registryDependency (shadcnJson env)) r1)
                        (\<lambda>r2.
                           let r3 = r2\<lparr>files := (files r2)
                                      (''/components/ui/kibo-ui/'' @ props_name props @ ''.tsx'' \<mapsto>
                                       parseContent selectedComponentContent)\<rparr>;
                               r4 = r3\<lparr>dependencies :=
                                       processDependencies (registry_dependencies registry)
                                         (dependencies r3)\<rparr>;
                               r5 = r4\<lparr>devDependencies :=
                                       processDependencies (registry_devDependencies registry)
                                         (devDependencies r4)\<rparr>;
                               r6 = r5\<lparr>dependencies :=
                                       processDependencies (props_dependencies props)
                                         (dependencies r5)\<rparr>
                           in Some (Inr r6)))))"

text \<open>Lines 159 to 238: the properties of \<open>PreviewProvider\<close>.\<close>

definition render :: "parsed \<Rightarrow> provider_props" where
  "render r =
     \<lparr>setup_dependencies = customSetupDependencies (dependencies r),
      setup_devDependencies = customSetupDevDependencies (devDependencies r),
      provider_files = files r\<rparr>"

definition Preview :: "module_store \<Rightarrow> preview_props \<Rightarrow> (error + provider_props) option" where
  "Preview env props =
     (case assemble env props of
        None \<Rightarrow> None
      | Some (Inl e) \<Rightarrow> Some (Inl e)
      | Some (Inr r) \<Rightarrow> Some (Inr (render r)))"

subsection \<open>Example modules\<close>

text \<open>
  Stores for the concrete cases below. In \<open>exampleShadcn\<close>, \<open>button\<close> names \<open>icon\<close>, and
  \<open>left\<close> and \<open>right\<close> both name \<open>base\<close>. In \<open>circularShadcn\<close>, \<open>a\<close>, \<open>b\<close> and \<open>c\<close>
  name each other in a circle, and \<open>self\<close> names itself. The registry record \<open>demo\<close>
  lists no registry dependencies; \<open>broken\<close> lists one that has no record.
\<close>

definition component :: "string \<Rightarrow> entries option \<Rightarrow> string \<Rightarrow> shadcn_module" where
  "component n deps source =
     \<lparr>shadcn_name = n, shadcn_dependencies = deps, shadcn_devDependencies = None,
      shadcn_files = Some [source]\<rparr>"

definition exampleShadcn :: "string \<Rightarrow> shadcn_module option" where
  \<open>exampleShadcn c =
     (if c = ''button'' then
        Some (component ''button'' (Some [(''0'', ''@radix-ui/react-slot'')])
                ''import { Icon } from "@/registry/new-york/ui/icon"'')
      else if c = ''icon'' then
        Some (component ''icon'' (Some [(''0'', ''lucide-react@0.4.0'')]) ''export const Icon = 1'')
      else if c = ''left'' then Some (component ''left'' None ''import "@/components/ui/base"'')
      else if c = ''right'' then Some (component ''right'' None ''import "@/components/ui/base"'')
      else if c = ''base'' then Some (component ''base'' None ''export {}'')
      else None)\<close>

definition circularShadcn :: "string \<Rightarrow> shadcn_module option" where
  \<open>circularShadcn c =
     (if c = ''a'' then Some (component ''a'' None ''import "@/components/ui/b"'')
      else if c = ''b'' then Some (component ''b'' None ''import "@/components/ui/c"'')
      else if c = ''c'' then Some (component ''c'' None ''import "@/components/ui/a"'')
      else if c = ''self'' then Some (component ''self'' None ''import "@/components/ui/self"'')
      else None)\<close>

definition exampleRegistry :: "string \<Rightarrow> registry_module option" where
  "exampleRegistry n =
     (if n = ''demo'' then
        Some \<lparr>registry_dependencies = Some [(''0'', ''clsx@2.1.0'')],
              registry_devDependencies = Some [(''0'', ''postcss@8.4.0'')],
              registry_registryDependencies = None,
              registry_files = Some [''export const Demo = 1'']\<rparr>
      else if n = ''broken'' then
        Some \<lparr>registry_dependencies = None,
              registry_devDependencies = None,
              registry_registryDependencies = Some [(''0'', ''icon''), (''1'', ''missing'')],
              registry_files = None\<rparr>
      else None)"

definition exampleStore :: module_store where
  "exampleStore =
     \<lparr>shadcnJson = exampleShadcn, registryJson = exampleRegistry,
      tsconfig = ''{}'', utils = ''export {}'', content = ''export {}''\<rparr>"

text \<open>The demo that imports \<open>button\<close>, with the packages the caller adds.\<close>

definition exampleProps :: "string \<Rightarrow> entries option \<Rightarrow> preview_props" where
  \<open>exampleProps n deps =
     \<lparr>props_name = n,
      props_code = ''import { Button } from "@/components/ui/button"'',
      props_dependencies = deps\<rparr>\<close>

text \<open>The same demo over the records that name each other in a circle.\<close>

definition circularStore :: module_store where
  "circularStore = exampleStore\<lparr>shadcnJson := circularShadcn\<rparr>"

definition circularProps :: preview_props where
  \<open>circularProps =
     \<lparr>props_name = ''demo'', props_code = ''import "@/components/ui/a"'',
      props_dependencies = None\<rparr>\<close>

text \<open>Ranks for \<open>exampleShadcn\<close>: a record ranks above the records its text names.\<close>

definition exampleRank :: "string \<Rightarrow> nat" where
  "exampleRank c = (if c = ''icon'' \<or> c = ''base'' then 0 else 1)"

section \<open>Properties\<close>

subsection \<open>parseContent is idempotent\<close>

lemma parseContent_skip:
  "\<not> prefix registryPath (c # cs) \<Longrightarrow> parseContent (c # cs) = c # parseContent cs"
  by simp

lemma parseContent_match:
  "prefix registryPath (c # cs) \<Longrightarrow>
   parseContent (c # cs) = componentsPath @ parseContent (drop (length registryPath) (c # cs))"
  by simp

declare parseContent.simps(2) [simp del]

text \<open>
  A text without \<open>@\<close> that heads the rewritten text heads the original: the rewrite only
  puts text in that starts with \<open>@\<close>.
\<close>

lemma prefix_parseContent:
  "CHR ''@'' \<notin> set q \<Longrightarrow> prefix q (parseContent s) \<Longrightarrow> prefix q s"
proof (induction s arbitrary: q rule: parseContent.induct)
  case 1
  then show ?case by simp
next
  case (2 c cs)
  show ?case
  proof (cases q)
    case Nil
    then show ?thesis by simp
  next
    case (Cons a q')
    show ?thesis
    proof (cases "prefix registryPath (c # cs)")
      case True
      with "2.prems" Cons show ?thesis
        by (simp add: parseContent_match componentsPath_def)
    next
      case False
      with "2.prems" Cons have "a = c" "prefix q' (parseContent cs)" "CHR ''@'' \<notin> set q'"
        by (simp_all add: parseContent_skip)
      with "2.IH"(2)[OF False, of q'] Cons show ?thesis
        by simp
    qed
  qed
qed

lemma registryPath_parseContent:
  assumes "prefix registryPath (c # parseContent cs)"
  shows "prefix registryPath (c # cs)"
proof -
  from assms have c: "c = CHR ''@''"
    and p: "prefix ''/registry/new-york/ui/'' (parseContent cs)"
    by (simp_all add: registryPath_def)
  from p have "prefix ''/registry/new-york/ui/'' cs"
    by (rule prefix_parseContent[rotated]) simp
  with c show ?thesis by (simp add: registryPath_def)
qed

lemma parseContent_components:
  "parseContent (componentsPath @ s) = componentsPath @ parseContent s"
  by (simp add: componentsPath_def registryPath_def parseContent.simps(2))

text \<open>
  C8. Rewriting a text twice gives what rewriting it once gives, for every text: the
  replacement text cannot complete a new occurrence of the registry path, since that
  path has its only \<open>@\<close> at its head and the replacement goes on with \<open>/c\<close>, not \<open>/r\<close>.
\<close>

theorem parseContent_idempotent: "parseContent (parseContent x) = parseContent x"
proof (induction x rule: parseContent.induct)
  case 1
  show ?case by simp
next
  case (2 c cs)
  show ?case
  proof (cases "prefix registryPath (c # cs)")
    case True
    with "2.IH"(1) show ?thesis
      by (simp add: parseContent_match parseContent_components)
  next
    case False
    then have "\<not> prefix registryPath (c # parseContent cs)"
      using registryPath_parseContent by blast
    with False "2.IH"(2) show ?thesis by (simp add: parseContent_skip)
  qed
qed

subsection \<open>parseDependencyVersion splits at the first separator\<close>

lemma dependencyGroups_separator:
  assumes "CHR ''@'' \<notin> set pre" "list_all (\<lambda>x. \<not> lineTerminator x) pre"
      and "v \<noteq> []" "list_all (\<lambda>x. \<not> lineTerminator x) v"
  shows "dependencyGroups acc (pre @ CHR ''@'' # v) = Some (acc @ pre, Some v)"
  using assms by (induction pre arbitrary: acc) auto

lemma dependencyGroups_whole:
  assumes "CHR ''@'' \<notin> set (butlast r)" "list_all (\<lambda>x. \<not> lineTerminator x) r"
  shows "dependencyGroups acc r = Some (acc @ r, None)"
  using assms
proof (induction r arbitrary: acc)
  case Nil
  show ?case by simp
next
  case (Cons c cs)
  show ?case
  proof (cases "cs = []")
    case True
    with Cons.prems show ?thesis by simp
  next
    case False
    with Cons.prems have "c \<noteq> CHR ''@''" "CHR ''@'' \<notin> set (butlast cs)"
      "list_all (\<lambda>x. \<not> lineTerminator x) cs" "\<not> lineTerminator c"
      by auto
    with Cons.IH[of "acc @ [c]"] show ?thesis by simp
  qed
qed

lemma parseDependencyVersion_whole:
  assumes "v \<noteq> []" "list_all (\<lambda>x. \<not> lineTerminator x) v" "CHR ''@'' \<notin> set (tl (butlast v))"
  shows "parseDependencyVersion v = \<lparr>dep_name = Some v, dep_version = ''latest''\<rparr>"
proof -
  from assms obtain c cs where n: "v = c # cs" by (cases v) auto
  with assms have c: "\<not> lineTerminator c" and cs: "list_all (\<lambda>x. \<not> lineTerminator x) cs"
    by auto
  from assms(3) n have "CHR ''@'' \<notin> set (butlast cs)" by (cases cs) auto
  with n c cs dependencyGroups_whole[of cs "[c]"] show ?thesis
    by (simp add: parseDependencyVersion_def dependencyMatch_def)
qed

lemma parseDependencyVersion_split:
  assumes "n \<noteq> []" "list_all (\<lambda>x. \<not> lineTerminator x) n" "CHR ''@'' \<notin> set (tl n)"
    and "v \<noteq> []" "list_all (\<lambda>x. \<not> lineTerminator x) v"
  shows "parseDependencyVersion (n @ CHR ''@'' # v) = \<lparr>dep_name = Some n, dep_version = v\<rparr>"
proof -
  from assms obtain c cs where n: "n = c # cs" by (cases n) auto
  with assms have "\<not> lineTerminator c" "list_all (\<lambda>x. \<not> lineTerminator x) cs"
    "CHR ''@'' \<notin> set cs"
    by auto
  with n assms(4,5) dependencyGroups_separator[of cs v "[c]"] show ?thesis
    by (simp add: parseDependencyVersion_def dependencyMatch_def)
qed

text \<open>
  C6, as the code has it. Let \<open>n\<close> be a non-empty text without line terminators. If \<open>n\<close>
  has no \<open>@\<close> behind its first character and \<open>v\<close> is a non-empty text without line
  terminators, then \<open>n@v\<close> parses to the name \<open>n\<close> and the version \<open>v\<close>: the separator
  is the first \<open>@\<close> behind the first character that has text behind it, whatever \<open>v\<close>
  holds, so a scoped name keeps its leading \<open>@\<close>. If \<open>n\<close> has no \<open>@\<close> but at its first
  or its last place, \<open>n\<close> parses to the name \<open>n\<close> and the version \<open>latest\<close>.
\<close>

theorem parseDependencyVersion_first_separator:
  assumes "n \<noteq> []" and "list_all (\<lambda>x. \<not> lineTerminator x) n"
  shows "(CHR ''@'' \<notin> set (tl n) \<and> v \<noteq> [] \<and> list_all (\<lambda>x. \<not> lineTerminator x) v \<longrightarrow>
            parseDependencyVersion (n @ CHR ''@'' # v) = \<lparr>dep_name = Some n, dep_version = v\<rparr>) \<and>
         (CHR ''@'' \<notin> set (tl (butlast n)) \<longrightarrow>
            parseDependencyVersion n = \<lparr>dep_name = Some n, dep_version = ''latest''\<rparr>)"
proof -
  have "parseDependencyVersion (n @ CHR ''@'' # v) = \<lparr>dep_name = Some n, dep_version = v\<rparr>"
    if "CHR ''@'' \<notin> set (tl n)" "v \<noteq> []" "list_all (\<lambda>x. \<not> lineTerminator x) v"
    using that assms by (simp add: parseDependencyVersion_split)
  moreover have "parseDependencyVersion n = \<lparr>dep_name = Some n, dep_version = ''latest''\<rparr>"
    if "CHR ''@'' \<notin> set (tl (butlast n))"
    using that assms by (simp add: parseDependencyVersion_whole)
  ultimately show ?thesis by blast
qed

text \<open>The three strings of the specification, from the theorem.\<close>

theorem parseDependencyVersion_first_separator_witness:
  "parseDependencyVersion ''foo'' = \<lparr>dep_name = Some ''foo'', dep_version = ''latest''\<rparr> \<and>
   parseDependencyVersion ''foo@1.2.3'' = \<lparr>dep_name = Some ''foo'', dep_version = ''1.2.3''\<rparr> \<and>
   parseDependencyVersion ''@scope/foo@2.0.0'' =
     \<lparr>dep_name = Some ''@scope/foo'', dep_version = ''2.0.0''\<rparr>"
  using parseDependencyVersion_first_separator[of "''foo''" "''1.2.3''"]
    parseDependencyVersion_first_separator[of "''@scope/foo''" "''2.0.0''"]
  by (simp add: lineTerminator_def)

text \<open>
  The separator is not the last \<open>@\<close> of the string: an npm alias splits at its first
  \<open>@\<close>, and the second stays in the version.
\<close>

theorem parseDependencyVersion_last_separator_counterexample:
  "parseDependencyVersion ''foo@npm:bar@1.0.0'' =
     \<lparr>dep_name = Some ''foo'', dep_version = ''npm:bar@1.0.0''\<rparr> \<and>
   parseDependencyVersion ''foo@npm:bar@1.0.0'' \<noteq>
     \<lparr>dep_name = Some ''foo@npm:bar'', dep_version = ''1.0.0''\<rparr>"
  by (simp add: parseDependencyVersion_def dependencyMatch_def lineTerminator_def)

subsection \<open>processDependencies: the last write wins\<close>

lemma processDependencies_Nil: "processDependencies (Some []) target = target"
  by (simp add: processDependencies_def)

lemma processDependencies_Cons:
  "processDependencies (Some ((key, dep) # ds)) target =
     processDependencies (Some ds)
       (assign (propertyKey (dep_name (parseDependencyVersion dep)))
          (dep_version (parseDependencyVersion dep)) target)"
  by (simp add: processDependencies_def Let_def)

lemma processDependencies_append:
  "processDependencies (Some (xs @ ys)) target =
     processDependencies (Some ys) (processDependencies (Some xs) target)"
  by (simp add: processDependencies_def)

lemma processDependencies_other:
  assumes "\<forall>d \<in> set ds. propertyKey (dep_name (parseDependencyVersion (snd d))) \<noteq> k"
  shows "processDependencies (Some ds) target k = target k"
  using assms
proof (induction ds arbitrary: target)
  case Nil
  show ?case by (simp add: processDependencies_Nil)
next
  case (Cons d ds)
  obtain key dep where d: "d = (key, dep)" by (cases d)
  with Cons show ?case
    by (auto simp: processDependencies_Cons assign_def)
qed

lemma processDependencies_last_write:
  assumes "k = propertyKey (dep_name (parseDependencyVersion dep))"
      and "k \<noteq> ''__proto__''"
      and "\<forall>d \<in> set after. propertyKey (dep_name (parseDependencyVersion (snd d))) \<noteq> k"
  shows "processDependencies (Some (before @ (key, dep) # after)) target k =
           Some (dep_version (parseDependencyVersion dep))"
  using assms
  by (simp add: processDependencies_append processDependencies_Cons processDependencies_other
      assign_def)

lemma assemble_dependencies:
  assumes "assemble env props = Some (Inr r)"
  shows "\<exists>acc. dependencies r = processDependencies (props_dependencies props) acc"
  using assms
  by (auto simp: assemble_def Let_def split: option.splits Option.bind_splits)







subsection \<open>parseShadcnComponents: when the call returns\<close>

lemma parseShadcnComponents_unfold:
  "parseShadcnComponents shadcn str =
     forEach (referencedComponents str) (loadComponent shadcn) (emptyParsed, {#})"
  unfolding loadComponent_def by (rule parseShadcnComponents.simps)

lemma loadComponent_None:
  "shadcn c = None \<Longrightarrow> loadComponent shadcn c (r, log) = Some (r, log + {#Import c, Warn c#})"
  by (simp add: loadComponent_def)

lemma loadComponent_Some:
  "shadcn c = Some m \<Longrightarrow>
   loadComponent shadcn c (r, log) =
     Option.bind (parseShadcnComponents shadcn (firstContent (shadcn_files m)))
       (\<lambda>inner. Some (storeComponent m r, log + {#Import c#} + snd inner))"
  by (simp add: loadComponent_def)

lemma forEach_returns:
  assumes "\<And>x s. x \<in> set xs \<Longrightarrow> \<exists>s'. f x s = Some s'"
  shows "\<exists>s'. forEach xs f s = Some s'"
  using assms
proof (induction xs arbitrary: s)
  case Nil
  show ?case by simp
next
  case (Cons x xs)
  from Cons.prems[of x s] obtain s1 where s1: "f x s = Some s1" by auto
  from Cons.IH[of s1] Cons.prems obtain s2 where "forEach xs f s1 = Some s2" by auto
  with s1 show ?case by simp
qed

lemma forEach_member_returns:
  assumes "forEach xs f s = Some s'" and "x \<in> set xs"
  shows "\<exists>s1 s2. f x s1 = Some s2"
  using assms
proof (induction xs arbitrary: s)
  case Nil
  then show ?case by simp
next
  case (Cons y ys)
  from Cons.prems(1) obtain s1 where 1: "f y s = Some s1" and 2: "forEach ys f s1 = Some s'"
    by (auto split: Option.bind_splits)
  show ?case
  proof (cases "x = y")
    case True
    with 1 show ?thesis by blast
  next
    case False
    with Cons.prems(2) have "x \<in> set ys" by simp
    with Cons.IH[OF 2] show ?thesis by blast
  qed
qed

text \<open>
  A set of texts, each naming a loadable component whose own text is in the set again:
  no call on such a text returns.
\<close>

lemma parseShadcnComponents_diverges:
  assumes closed: "\<And>s. bad s \<Longrightarrow>
      \<exists>c m. c \<in> set (referencedComponents s) \<and> shadcn c = Some m \<and>
            bad (firstContent (shadcn_files m))"
    and "bad str"
  shows "parseShadcnComponents shadcn str = None"
proof (rule ccontr)
  assume "parseShadcnComponents shadcn str \<noteq> None"
  then obtain y where y: "parseShadcnComponents shadcn str = Some y" by auto
  have "shadcn = shadcn \<longrightarrow> \<not> bad str"
  proof (rule parseShadcnComponents.raw_induct
      [where P = "\<lambda>reg s res. reg = shadcn \<longrightarrow> \<not> bad s", OF _ y])
    fix call reg s res
    assume IH: "\<And>reg' s' res'. call reg' s' = Some res' \<Longrightarrow> reg' = shadcn \<longrightarrow> \<not> bad s'"
      and run: "forEach (referencedComponents s)
         (\<lambda>component st.
            case reg component of
              None \<Rightarrow> Some (fst st, snd st + {#Import component, Warn component#})
            | Some m \<Rightarrow>
                Option.bind (call reg (firstContent (shadcn_files m)))
                  (\<lambda>inner. Some (storeComponent m (fst st),
                                  snd st + {#Import component#} + snd inner)))
         (emptyParsed, {#}) = Some res"
    show "reg = shadcn \<longrightarrow> \<not> bad s"
    proof (intro impI notI)
      assume reg: "reg = shadcn" and "bad s"
      with closed obtain c m where c: "c \<in> set (referencedComponents s)"
        and m: "shadcn c = Some m" and b: "bad (firstContent (shadcn_files m))"
        by blast
      from forEach_member_returns[OF run c] obtain s1 s2 where
        "(case reg c of
            None \<Rightarrow> Some (fst s1, snd s1 + {#Import c, Warn c#})
          | Some m \<Rightarrow>
              Option.bind (call reg (firstContent (shadcn_files m)))
                (\<lambda>inner. Some (storeComponent m (fst s1), snd s1 + {#Import c#} + snd inner))) = Some s2"
        by blast
      with reg m obtain inner where "call shadcn (firstContent (shadcn_files m)) = Some inner"
        by (auto split: Option.bind_splits)
      from IH[OF this] b show False by simp
    qed
  qed
  with assms(2) show False by simp
qed


subsection \<open>References in a circle\<close>

lemma referencedComponents_a: \<open>referencedComponents ''import "@/components/ui/a"'' = [''a'']\<close>
  by code_simp

lemma referencedComponents_b: \<open>referencedComponents ''import "@/components/ui/b"'' = [''b'']\<close>
  by code_simp

lemma referencedComponents_c: \<open>referencedComponents ''import "@/components/ui/c"'' = [''c'']\<close>
  by code_simp

lemma circular_call_never_returns:
  \<open>parseShadcnComponents circularShadcn ''import "@/components/ui/a"'' = None\<close>
proof (rule parseShadcnComponents_diverges
    [where bad = "\<lambda>s. s = ''import \"@/components/ui/a\"'' \<or> s = ''import \"@/components/ui/b\"'' \<or>
                       s = ''import \"@/components/ui/c\"''"])
  show "''import \"@/components/ui/a\"'' = ''import \"@/components/ui/a\"'' \<or>
        ''import \"@/components/ui/a\"'' = ''import \"@/components/ui/b\"'' \<or>
        ''import \"@/components/ui/a\"'' = ''import \"@/components/ui/c\"''" by simp
  fix s :: string
  assume "s = ''import \"@/components/ui/a\"'' \<or> s = ''import \"@/components/ui/b\"'' \<or>
          s = ''import \"@/components/ui/c\"''"
  then consider "s = ''import \"@/components/ui/a\"''" | "s = ''import \"@/components/ui/b\"''"
    | "s = ''import \"@/components/ui/c\"''" by blast
  then show "\<exists>c m. c \<in> set (referencedComponents s) \<and> circularShadcn c = Some m \<and>
                 (firstContent (shadcn_files m) = ''import \"@/components/ui/a\"'' \<or>
                  firstContent (shadcn_files m) = ''import \"@/components/ui/b\"'' \<or>
                  firstContent (shadcn_files m) = ''import \"@/components/ui/c\"'')"
  proof cases
    case 1
    then show ?thesis
      by (simp add: referencedComponents_a circularShadcn_def component_def firstContent_def)
  next
    case 2
    then show ?thesis
      by (simp add: referencedComponents_b circularShadcn_def component_def firstContent_def)
  next
    case 3
    then show ?thesis
      by (simp add: referencedComponents_c circularShadcn_def component_def firstContent_def)
  qed
qed

text \<open>
  With \<open>a\<close> naming \<open>b\<close>, \<open>b\<close> naming \<open>c\<close> and \<open>c\<close> naming \<open>a\<close>, the call on a text that
  names \<open>a\<close> never returns, and neither does \<open>Preview\<close> of a demo with that text: no
  call keeps a set of the components loaded before.
\<close>

theorem cycle_never_returns_counterexample:
  \<open>parseShadcnComponents circularShadcn ''import "@/components/ui/a"'' = None \<and>
   Preview circularStore circularProps = None\<close>
  using circular_call_never_returns
  by (simp add: Preview_def assemble_def circularStore_def circularProps_def exampleStore_def
      exampleRegistry_def)

subsection \<open>References without a circle\<close>

lemma loadComponent_returns:
  assumes "\<And>m. shadcn c = Some m \<Longrightarrow>
             \<exists>res. parseShadcnComponents shadcn (firstContent (shadcn_files m)) = Some res"
  shows "\<exists>st'. loadComponent shadcn c st = Some st'"
proof (cases "shadcn c")
  case None
  then show ?thesis by (cases st) (simp add: loadComponent_None)
next
  case (Some m)
  with assms obtain res where
    "parseShadcnComponents shadcn (firstContent (shadcn_files m)) = Some res" by blast
  with Some show ?thesis by (cases st) (simp add: loadComponent_Some)
qed

text \<open>Every loaded record's own text resolves, by induction on the rank of the record.\<close>

lemma ranked_component_returns:
  assumes ranked: "\<And>c m c' m'. shadcn c = Some m \<Longrightarrow>
             c' \<in> set (referencedComponents (firstContent (shadcn_files m))) \<Longrightarrow>
             shadcn c' = Some m' \<Longrightarrow> rank c' < (rank c :: nat)"
  shows "shadcn c = Some m \<Longrightarrow>
         \<exists>res. parseShadcnComponents shadcn (firstContent (shadcn_files m)) = Some res"
proof (induction "rank c" arbitrary: c m rule: less_induct)
  case less
  show ?case
    unfolding parseShadcnComponents_unfold[of shadcn "firstContent (shadcn_files m)"]
  proof (rule forEach_returns, rule loadComponent_returns)
    fix c' m'
    assume "c' \<in> set (referencedComponents (firstContent (shadcn_files m)))"
      and m': "shadcn c' = Some m'"
    with less.prems ranked have "rank c' < rank c" by blast
    then show "\<exists>res. parseShadcnComponents shadcn (firstContent (shadcn_files m')) = Some res"
      using m' by (rule less.hyps)
  qed
qed

lemma ranked_call_returns:
  assumes ranked: "\<And>c m c' m'. shadcn c = Some m \<Longrightarrow>
             c' \<in> set (referencedComponents (firstContent (shadcn_files m))) \<Longrightarrow>
             shadcn c' = Some m' \<Longrightarrow> rank c' < (rank c :: nat)"
  shows "\<exists>res. parseShadcnComponents shadcn str = Some res"
  unfolding parseShadcnComponents_unfold
  by (rule forEach_returns, rule loadComponent_returns)
     (rule ranked_component_returns[of shadcn rank, OF ranked])

lemma registryDependency_returns:
  assumes "\<And>s. \<exists>res. parseShadcnComponents shadcn s = Some res"
  shows "\<exists>r'. registryDependency shadcn m r = Some r'"
proof -
  from assms obtain res where
    "parseShadcnComponents shadcn (firstContent (shadcn_files m)) = Some res" by blast
  then show ?thesis by (simp add: registryDependency_def)
qed

text \<open>Where every call returns, \<open>Preview\<close> settles: it renders or it rejects.\<close>

lemma assemble_settles:
  assumes calls: "\<And>s. \<exists>res. parseShadcnComponents (shadcnJson env) s = Some res"
  shows "\<exists>res. assemble env props = Some res"
proof (cases "registryJson env (props_name props)")
  case None
  then show ?thesis by (simp add: assemble_def)
next
  case (Some registry)
  from calls obtain initial where
    initial: "parseShadcnComponents (shadcnJson env) (props_code props) = Some initial" by blast
  from calls obtain selected where
    selected: "parseShadcnComponents (shadcnJson env)
                 (parseContent (firstContent (registry_files registry))) = Some selected" by blast
  have each: "\<exists>r2. forEach ms (registryDependency (shadcnJson env)) r1 = Some r2" for ms r1
    by (rule forEach_returns) (rule registryDependency_returns[OF calls])
  show ?thesis
  proof (cases "find (\<lambda>dependency. shadcnJson env dependency = None)
                  (case registry_registryDependencies registry of
                     None \<Rightarrow> [] | Some ds \<Rightarrow> map snd ds)")
    case None
    from each obtain r2 where
      "forEach (List.map_filter (shadcnJson env)
                 (case registry_registryDependencies registry of
                    None \<Rightarrow> [] | Some ds \<Rightarrow> map snd ds))
         (registryDependency (shadcnJson env))
         ((fst initial)\<lparr>files := (files (fst initial))
             (''/App.tsx'' \<mapsto> props_code props,
              ''/tsconfig.json'' \<mapsto> tsconfig env,
              ''/lib/utils.ts'' \<mapsto> utils env,
              ''/lib/content.ts'' \<mapsto> content env)\<rparr>) = Some r2"
      by blast
    with Some initial selected None show ?thesis
      by (simp add: assemble_def Let_def)
  next
    case (Some dependency)
    with \<open>registryJson env (props_name props) = Some registry\<close> initial show ?thesis
      by (simp add: assemble_def Let_def)
  qed
qed

text \<open>
  C2, as the code has it. If the references between the records have no circle (every
  record named by a loadable record's text, and loadable itself, has a smaller rank),
  the call returns on every text, and \<open>Preview\<close> settles for every demo.
\<close>

theorem parseShadcnComponents_returns_without_cycle:
  assumes ranked: "\<And>c m c' m'. shadcnJson env c = Some m \<Longrightarrow>
             c' \<in> set (referencedComponents (firstContent (shadcn_files m))) \<Longrightarrow>
             shadcnJson env c' = Some m' \<Longrightarrow> rank c' < (rank c :: nat)"
  shows "(\<exists>res. parseShadcnComponents (shadcnJson env) str = Some res) \<and>
         (\<exists>res. Preview env props = Some res)"
proof -
  have calls: "\<exists>res. parseShadcnComponents (shadcnJson env) s = Some res" for s
    by (rule ranked_call_returns[of "shadcnJson env" rank]) (rule ranked)
  from assemble_settles[OF calls] obtain res where "assemble env props = Some res"
    by blast
  then have "\<exists>res. Preview env props = Some res"
    by (cases res) (simp_all add: Preview_def)
  with calls show ?thesis by blast
qed

lemma referencedComponents_examples:
  \<open>referencedComponents ''import { Icon } from "@/registry/new-york/ui/icon"'' = [''icon'']\<close>
  \<open>referencedComponents ''export const Icon = 1'' = []\<close>
  \<open>referencedComponents ''import "@/components/ui/base"'' = [''base'']\<close>
  \<open>referencedComponents ''export {}'' = []\<close>
  \<open>referencedComponents ''import { Button } from "@/components/ui/button"'' = [''button'']\<close>
  by code_simp+

lemma exampleShadcn_ranked:
  assumes "exampleShadcn c = Some m"
    and "c' \<in> set (referencedComponents (firstContent (shadcn_files m)))"
    and "exampleShadcn c' = Some m'"
  shows "exampleRank c' < exampleRank c"
  using assms
  by (auto simp: exampleShadcn_def component_def firstContent_def exampleRank_def
      referencedComponents_examples split: if_splits)

text \<open>The example store has ranks: the call on the demo's text and \<open>Preview\<close> return.\<close>

theorem parseShadcnComponents_returns_without_cycle_witness:
  \<open>(\<exists>res. parseShadcnComponents exampleShadcn
            ''import { Button } from "@/components/ui/button"'' = Some res) \<and>
   (\<exists>res. Preview exampleStore (exampleProps ''demo'' None) = Some res)\<close>
proof -
  have \<open>(\<exists>res. parseShadcnComponents (shadcnJson exampleStore)
            ''import { Button } from "@/components/ui/button"'' = Some res) \<and>
   (\<exists>res. Preview exampleStore (exampleProps ''demo'' None) = Some res)\<close>
    by (rule parseShadcnComponents_returns_without_cycle[where rank = exampleRank])
       (simp add: exampleStore_def, rule exampleShadcn_ranked)
  then show ?thesis by (simp add: exampleStore_def)
qed

subsection \<open>The components of a text are distinct\<close>

lemma newSet_fold:
  "set (fold (\<lambda>x seen. if x \<in> set seen then seen else seen @ [x]) xs acc) = set acc \<union> set xs \<and>
   (distinct acc \<longrightarrow> distinct (fold (\<lambda>x seen. if x \<in> set seen then seen else seen @ [x]) xs acc))"
  by (induction xs arbitrary: acc) auto

lemma set_newSet: "set (newSet xs) = set xs"
  by (simp add: newSet_def newSet_fold)

lemma distinct_newSet: "distinct (newSet xs)"
  by (simp add: newSet_def newSet_fold)

lemma distinct_referencedComponents: "distinct (referencedComponents str)"
  by (simp add: referencedComponents_def Let_def distinct_newSet split: option.splits)

subsection \<open>What a call imports\<close>












subsection \<open>What the scan finds\<close>

lemma componentChar_kiboSegment: "list_all componentChar kiboSegment"
  by (simp add: kiboSegment_def componentChar_def whiteSpace_def)

lemma prefix_takeWhile:
  assumes "prefix p xs" "list_all P p"
  shows "prefix p (takeWhile P xs)"
  using assms
proof (induction p arbitrary: xs)
  case Nil
  show ?case by simp
next
  case (Cons a p)
  from Cons.prems(1) obtain ys where "xs = a # ys" "prefix p ys" by (cases xs) auto
  with Cons show ?case by simp
qed

text \<open>What one successful attempt at the head of a text has matched.\<close>

lemma kiboMatchAt_Some:
  assumes "kiboMatchAt s = Some m"
  shows "\<exists>c post. m = componentsPath @ c \<and> s = m @ post \<and> c \<noteq> [] \<and>
           list_all componentChar c \<and> \<not> prefix kiboSegment c \<and>
           (post = [] \<or> \<not> componentChar (hd post))"
proof -
  define rest where "rest = drop (length componentsPath) s"
  define c where "c = takeWhile componentChar rest"
  define post where "post = dropWhile componentChar rest"
  from assms have p: "prefix componentsPath s" and k: "\<not> prefix kiboSegment rest"
    and m: "m = componentsPath @ c" and ne: "c \<noteq> []"
    by (auto simp: kiboMatchAt_def Let_def rest_def c_def split: if_splits list.splits)
  from p have s: "s = componentsPath @ rest"
    by (auto simp: rest_def prefix_def)
  have rest: "rest = c @ post" by (simp add: c_def post_def)
  have "list_all componentChar c"
    unfolding c_def list_all_iff by (auto dest: set_takeWhileD)
  moreover have "\<not> prefix kiboSegment c"
    using k rest by (auto simp: prefix_def)
  moreover have "post = [] \<or> \<not> componentChar (hd post)"
    unfolding post_def by (metis hd_dropWhile)
  ultimately show ?thesis using m s rest ne by auto
qed

lemma replaceFirst_prefix:
  "prefix pat s \<Longrightarrow> replaceFirst pat rep s = rep @ drop (length pat) s"
  by (cases s) auto

lemma componentChar_componentsPath: "list_all componentChar componentsPath"
  by (simp add: componentsPath_def componentChar_def whiteSpace_def)

lemma takeWhile_run:
  assumes "list_all P w" "post = [] \<or> \<not> P (hd post)"
  shows "takeWhile P (w @ post) = w"
  using assms by (cases post) (auto simp: list_all_iff takeWhile_append2)

lemma prefix_run:
  assumes "list_all P p" "list_all P w" "post = [] \<or> \<not> P (hd post)"
  shows "prefix p (w @ post) \<longleftrightarrow> prefix p w"
proof
  assume "prefix p (w @ post)"
  then have "prefix p (takeWhile P (w @ post))" using assms(1) by (rule prefix_takeWhile)
  with assms(2,3) show "prefix p w" by (simp add: takeWhile_run)
next
  assume "prefix p w"
  then show "prefix p (w @ post)" by (rule prefix_prefix)
qed

text \<open>
  One attempt at the head of a word, a run of component characters that ends where the
  text ends or a quote or white space follows: it takes the whole word or fails.
\<close>

lemma kiboMatchAt_run:
  assumes w: "list_all componentChar w" and post: "post = [] \<or> \<not> componentChar (hd post)"
  shows "kiboMatchAt (w @ post) =
           (if prefix componentsPath w \<and> \<not> prefix (componentsPath @ kiboSegment) w \<and>
               length componentsPath < length w
            then Some w else None)"
proof (cases "prefix componentsPath w")
  case False
  with prefix_run[OF componentChar_componentsPath w post] show ?thesis
    by (simp add: kiboMatchAt_def)
next
  case True
  then obtain w' where w': "w = componentsPath @ w'" by (auto simp: prefix_def)
  with w have cw': "list_all componentChar w'" by simp
  have k: "prefix kiboSegment (w' @ post) \<longleftrightarrow> prefix kiboSegment w'"
    by (rule prefix_run[OF componentChar_kiboSegment cw' post])
  have t: "takeWhile componentChar (w' @ post) = w'"
    by (rule takeWhile_run[OF cw' post])
  from True prefix_run[OF componentChar_componentsPath w post]
  have "prefix componentsPath (w @ post)" by simp
  with w' k t show ?thesis
    by (cases w') (simp_all add: kiboMatchAt_def Let_def)
qed

lemma kiboMatches_step:
  "s \<noteq> [] \<Longrightarrow>
   kiboMatches s =
     (case kiboMatchAt s of
        None \<Rightarrow> kiboMatches (tl s)
      | Some m \<Rightarrow> m # kiboMatches (drop (length m) s))"
  by (cases s) (auto split: option.splits)

text \<open>The scan passes over the front of a word in which no attempt succeeds.\<close>

lemma kiboMatches_skip:
  assumes "list_all componentChar (u @ w)" and "post = [] \<or> \<not> componentChar (hd post)"
    and "\<forall>u1 u2. u = u1 @ u2 \<and> u2 \<noteq> [] \<and> prefix componentsPath (u2 @ w) \<longrightarrow>
           prefix (componentsPath @ kiboSegment) (u2 @ w)"
  shows "kiboMatches (u @ w @ post) = kiboMatches (w @ post)"
  using assms
proof (induction u)
  case Nil
  show ?case by simp
next
  case (Cons x u)
  from Cons.prems(3) have
    "prefix componentsPath ((x # u) @ w) \<longrightarrow>
       prefix (componentsPath @ kiboSegment) ((x # u) @ w)"
    by blast
  with kiboMatchAt_run[OF Cons.prems(1,2)]
  have "kiboMatchAt ((x # u) @ w @ post) = None" by auto
  then have "kiboMatches ((x # u) @ w @ post) = kiboMatches (u @ w @ post)"
    by simp
  moreover have "kiboMatches (u @ w @ post) = kiboMatches (w @ post)"
  proof (rule Cons.IH)
    from Cons.prems(1) show "list_all componentChar (u @ w)" by simp
    show "post = [] \<or> \<not> componentChar (hd post)" by (rule Cons.prems(2))
    show "\<forall>u1 u2. u = u1 @ u2 \<and> u2 \<noteq> [] \<and> prefix componentsPath (u2 @ w) \<longrightarrow>
           prefix (componentsPath @ kiboSegment) (u2 @ w)"
    proof (intro allI impI, elim conjE)
      fix u1 u2
      assume "u = u1 @ u2" "u2 \<noteq> []" "prefix componentsPath (u2 @ w)"
      then have "x # u = (x # u1) @ u2 \<and> u2 \<noteq> [] \<and> prefix componentsPath (u2 @ w)" by simp
      with Cons.prems(3) show "prefix (componentsPath @ kiboSegment) (u2 @ w)" by blast
    qed
  qed
  ultimately show ?case by simp
qed

lemma kiboMatches_match:
  assumes "list_all componentChar c" "c \<noteq> []" "\<not> prefix kiboSegment c"
    and "post = [] \<or> \<not> componentChar (hd post)"
  shows "kiboMatches (componentsPath @ c @ post) = (componentsPath @ c) # kiboMatches post"
proof -
  from assms(1) componentChar_componentsPath
  have w: "list_all componentChar (componentsPath @ c)" by simp
  from kiboMatchAt_run[OF w assms(4)] assms(2,3)
  have "kiboMatchAt (componentsPath @ c @ post) = Some (componentsPath @ c)" by simp
  moreover have "componentsPath @ c @ post \<noteq> []" using assms(2) by simp
  ultimately show ?thesis by (simp add: kiboMatches_step)
qed

text \<open>The scan comes by every place that stands behind a quote or white space.\<close>

lemma kiboMatches_boundary:
  assumes "pre = [] \<or> \<not> componentChar (last pre)"
  shows "\<exists>ms. kiboMatches (pre @ t) = ms @ kiboMatches t"
  using assms
proof (induction "length pre" arbitrary: pre rule: less_induct)
  case less
  show ?case
  proof (cases pre)
    case Nil
    then show ?thesis by simp
  next
    case (Cons x pre')
    with less.prems have last: "\<not> componentChar (last pre)" by simp
    show ?thesis
    proof (cases "kiboMatchAt (pre @ t)")
      case None
      from Cons last have b: "pre' = [] \<or> \<not> componentChar (last pre')" by auto
      from Cons have "length pre' < length pre" by simp
      from less.hyps[OF this b] obtain ms where "kiboMatches (pre' @ t) = ms @ kiboMatches t"
        by blast
      with None Cons show ?thesis by simp
    next
      case (Some m)
      from kiboMatchAt_Some[OF Some] obtain c post where
        m: "m = componentsPath @ c" and s: "pre @ t = m @ post" and c: "list_all componentChar c"
        and ne: "c \<noteq> []"
        by blast
      from m c componentChar_componentsPath have cm: "list_all componentChar m" by simp
      have short: "length m < length pre"
      proof (rule ccontr)
        assume "\<not> length m < length pre"
        then have "length pre \<le> length m" by simp
        with s have "prefix pre m"
          by (metis append_eq_append_conv_if prefixI le_refl take_all append_take_drop_id)
        then have "set pre \<subseteq> set m" by (rule set_mono_prefix)
        moreover from Cons have "last pre \<in> set pre" by simp
        ultimately have "componentChar (last pre)" using cm by (auto simp: list_all_iff)
        with last show False by simp
      qed
      with s have pre: "pre = m @ drop (length m) pre"
        by (metis append_eq_append_conv_if append_take_drop_id less_imp_le_nat)
      define rest where "rest = drop (length m) pre"
      from short have rne: "rest \<noteq> []" by (simp add: rest_def)
      from pre have pre': "pre = m @ rest" by (simp add: rest_def)
      with rne last have b: "rest = [] \<or> \<not> componentChar (last rest)" by simp
      from m ne pre' rne have "length rest < length pre" by simp
      from less.hyps[OF this b] obtain ms where ms: "kiboMatches (rest @ t) = ms @ kiboMatches t"
        by blast
      from pre' have "drop (length m) (pre @ t) = rest @ t" by simp
      with Some Cons ms have "kiboMatches (pre @ t) = (m # ms) @ kiboMatches t"
        by (simp add: kiboMatches_step)
      then show ?thesis by blast
    qed
  qed
qed


lemma kiboMatches_complete:
  assumes "references t c"
  shows "componentsPath @ c \<in> set (kiboMatches t)"
proof -
  from assms obtain pre u post where t: "t = pre @ u @ componentsPath @ c @ post"
    and pre: "pre = [] \<or> \<not> componentChar (last pre)"
    and post: "post = [] \<or> \<not> componentChar (hd post)"
    and w: "wordReference u c"
    by (auto simp: references_def)
  from w have cc: "list_all componentChar (u @ componentsPath @ c)"
    and c: "list_all componentChar c" "c \<noteq> []" "\<not> prefix kiboSegment c"
    and early: "\<forall>u1 u2. u = u1 @ u2 \<and> u2 \<noteq> [] \<and> prefix componentsPath (u2 @ componentsPath @ c) \<longrightarrow>
        prefix (componentsPath @ kiboSegment) (u2 @ componentsPath @ c)"
    using componentChar_componentsPath by (auto simp: wordReference_def)
  from kiboMatches_boundary[OF pre] obtain ms where
    "kiboMatches (pre @ u @ componentsPath @ c @ post) =
       ms @ kiboMatches (u @ componentsPath @ c @ post)" by blast
  moreover from kiboMatches_skip[OF cc post early]
  have "kiboMatches (u @ componentsPath @ c @ post) = kiboMatches (componentsPath @ c @ post)"
    by simp
  moreover note kiboMatches_match[OF c post]
  ultimately show ?thesis using t by simp
qed

lemma kiboMatches_word:
  assumes "m \<in> set (kiboMatches s)"
    and "list_all componentChar u0"
    and "pre0 = [] \<or> \<not> componentChar (last pre0) \<or> u0 @ s = [] \<or> \<not> componentChar (hd (u0 @ s))"
    and "\<forall>u1 u2. u0 = u1 @ u2 \<and> u2 \<noteq> [] \<longrightarrow> kiboMatchAt (u2 @ s) = None"
  shows "\<exists>pre u c post. pre0 @ u0 @ s = pre @ u @ componentsPath @ c @ post \<and>
           m = componentsPath @ c \<and>
           (pre = [] \<or> \<not> componentChar (last pre)) \<and>
           (post = [] \<or> \<not> componentChar (hd post)) \<and>
           wordReference u c"
  using assms
proof (induction s arbitrary: pre0 u0 rule: kiboMatches.induct)
  case 1
  then show ?case by simp
next
  case (2 x xs)
  show ?case
  proof (cases "kiboMatchAt (x # xs)")
    case None
    with "2.prems"(1) have m: "m \<in> set (kiboMatches xs)" by simp
    show ?thesis
    proof (cases "componentChar x")
      case True
      have "\<exists>pre u c post. pre0 @ (u0 @ [x]) @ xs = pre @ u @ componentsPath @ c @ post \<and>
           m = componentsPath @ c \<and>
           (pre = [] \<or> \<not> componentChar (last pre)) \<and>
           (post = [] \<or> \<not> componentChar (hd post)) \<and>
           wordReference u c"
      proof (rule "2.IH"(1)[OF None m])
        from True "2.prems"(2) show "list_all componentChar (u0 @ [x])" by simp
        from "2.prems"(3) show "pre0 = [] \<or> \<not> componentChar (last pre0) \<or>
            (u0 @ [x]) @ xs = [] \<or> \<not> componentChar (hd ((u0 @ [x]) @ xs))" by simp
        show "\<forall>u1 u2. u0 @ [x] = u1 @ u2 \<and> u2 \<noteq> [] \<longrightarrow> kiboMatchAt (u2 @ xs) = None"
        proof (intro allI impI, elim conjE)
          fix u1 u2
          assume eq: "u0 @ [x] = u1 @ u2" and ne: "u2 \<noteq> []"
          from ne obtain u2' y where u2: "u2 = u2' @ [y]" by (cases u2 rule: rev_cases) auto
          with eq have "u0 = u1 @ u2'" "y = x" by auto
          show "kiboMatchAt (u2 @ xs) = None"
          proof (cases "u2' = []")
            case True
            with u2 \<open>y = x\<close> None show ?thesis by simp
          next
            case False
            with "2.prems"(4) \<open>u0 = u1 @ u2'\<close> have "kiboMatchAt (u2' @ x # xs) = None" by blast
            with u2 \<open>y = x\<close> show ?thesis by simp
          qed
        qed
      qed
      then show ?thesis by simp
    next
      case False
      have "\<exists>pre u c post. (pre0 @ u0 @ [x]) @ [] @ xs = pre @ u @ componentsPath @ c @ post \<and>
           m = componentsPath @ c \<and>
           (pre = [] \<or> \<not> componentChar (last pre)) \<and>
           (post = [] \<or> \<not> componentChar (hd post)) \<and>
           wordReference u c"
      proof (rule "2.IH"(1)[OF None m])
        show "list_all componentChar []" by simp
        from False show "pre0 @ u0 @ [x] = [] \<or> \<not> componentChar (last (pre0 @ u0 @ [x])) \<or>
            [] @ xs = [] \<or> \<not> componentChar (hd ([] @ xs))" by simp
        show "\<forall>u1 u2. [] = u1 @ u2 \<and> u2 \<noteq> [] \<longrightarrow> kiboMatchAt (u2 @ xs) = None" by simp
      qed
      then show ?thesis by simp
    qed
  next
    case (Some m')
    from kiboMatchAt_Some[OF Some] obtain c' post' where
      m': "m' = componentsPath @ c'" and s: "x # xs = m' @ post'" and ne: "c' \<noteq> []"
      and cc: "list_all componentChar c'" and k: "\<not> prefix kiboSegment c'"
      and post': "post' = [] \<or> \<not> componentChar (hd post')"
      by blast
    from "2.prems"(1) Some consider "m = m'" | "m \<in> set (kiboMatches (drop (length m') (x # xs)))"
      by auto
    then show ?thesis
    proof cases
      case 1
      have x: "componentChar x"
        using s m' by (simp add: componentsPath_def componentChar_def whiteSpace_def)
      have hd: "componentChar (hd (u0 @ x # xs))"
        using x "2.prems"(2) by (cases u0) auto
      with "2.prems"(3) have pre0: "pre0 = [] \<or> \<not> componentChar (last pre0)" by auto
      have early: "\<forall>u1 u2. u0 = u1 @ u2 \<and> u2 \<noteq> [] \<and>
          prefix componentsPath (u2 @ componentsPath @ c') \<longrightarrow>
          prefix (componentsPath @ kiboSegment) (u2 @ componentsPath @ c')"
      proof (intro allI impI, elim conjE)
        fix u1 u2
        assume u0: "u0 = u1 @ u2" and u2: "u2 \<noteq> []"
          and p: "prefix componentsPath (u2 @ componentsPath @ c')"
        from u0 "2.prems"(2) cc componentChar_componentsPath
        have w: "list_all componentChar (u2 @ componentsPath @ c')" by simp
        from "2.prems"(4) u0 u2 have "kiboMatchAt (u2 @ x # xs) = None" by blast
        with s m' have "kiboMatchAt ((u2 @ componentsPath @ c') @ post') = None" by simp
        with kiboMatchAt_run[OF w post'] p ne
        show "prefix (componentsPath @ kiboSegment) (u2 @ componentsPath @ c')"
          by (auto split: if_splits)
      qed
      from "2.prems"(2) cc ne k early have "wordReference u0 c'"
        by (simp add: wordReference_def)
      moreover from s m' have "pre0 @ u0 @ x # xs = pre0 @ u0 @ componentsPath @ c' @ post'"
        by simp
      ultimately show ?thesis using 1 m' pre0 post' by blast
    next
      case 2
      with s have m: "m \<in> set (kiboMatches post')" by simp
      have "\<exists>pre u c post. (pre0 @ u0 @ m') @ [] @ drop (length m') (x # xs) =
              pre @ u @ componentsPath @ c @ post \<and>
           m = componentsPath @ c \<and>
           (pre = [] \<or> \<not> componentChar (last pre)) \<and>
           (post = [] \<or> \<not> componentChar (hd post)) \<and>
           wordReference u c"
      proof (rule "2.IH"(2)[OF Some 2])
        show "list_all componentChar []" by simp
        from post' s show "pre0 @ u0 @ m' = [] \<or> \<not> componentChar (last (pre0 @ u0 @ m')) \<or>
            [] @ drop (length m') (x # xs) = [] \<or>
            \<not> componentChar (hd ([] @ drop (length m') (x # xs)))" by auto
        show "\<forall>u1 u2. [] = u1 @ u2 \<and> u2 \<noteq> [] \<longrightarrow>
            kiboMatchAt (u2 @ drop (length m') (x # xs)) = None" by simp
      qed
      with s show ?thesis by simp
    qed
  qed
qed

lemma kiboMatches_references:
  "m \<in> set (kiboMatches t) \<longleftrightarrow> (\<exists>c. m = componentsPath @ c \<and> references t c)"
proof
  assume "m \<in> set (kiboMatches t)"
  from kiboMatches_word[OF this, of "[]" "[]"] show "\<exists>c. m = componentsPath @ c \<and> references t c"
    by (auto simp: references_def)
next
  assume "\<exists>c. m = componentsPath @ c \<and> references t c"
  then show "m \<in> set (kiboMatches t)" using kiboMatches_complete by blast
qed

lemma referencedComponents_references:
  "c \<in> set (referencedComponents str) \<longleftrightarrow> references (parseContent str) c"
proof -
  have set: "set (referencedComponents str) =
          (\<lambda>m. replaceFirst componentsPath [] m) ` set (kiboMatches (parseContent str))"
    by (auto simp: referencedComponents_def Let_def matchKibo_def set_newSet
        split: list.splits)
  have drop: "replaceFirst componentsPath [] (componentsPath @ c') = c'" for c'
    by (simp add: replaceFirst_prefix)
  show ?thesis
  proof
    assume "c \<in> set (referencedComponents str)"
    with set obtain m where "m \<in> set (kiboMatches (parseContent str))"
      and "c = replaceFirst componentsPath [] m" by auto
    with kiboMatches_references[of m "parseContent str"] drop
    show "references (parseContent str) c" by auto
  next
    assume "references (parseContent str) c"
    then have "componentsPath @ c \<in> set (kiboMatches (parseContent str))"
      by (rule kiboMatches_complete)
    then have "replaceFirst componentsPath [] (componentsPath @ c) \<in> set (referencedComponents str)"
      unfolding set by (rule imageI)
    with drop show "c \<in> set (referencedComponents str)" by simp
  qed
qed

text \<open>
  C9, as the code has it. The components of a text are distinct, and they are exactly
  the identifiers that the words of the rewritten text refer to: each word gives at
  most one, the text behind its first path \<open>@/components/ui/\<close> that does not go on
  with \<open>kibo-ui/\<close>, up to the end of the word. So each component is a non-empty run of
  characters other than quotes and white space and none starts with \<open>kibo-ui/\<close>; every
  path that stands at the start of the text or right behind a quote or white space,
  with such a run behind it, gives its component; and a text in which the path does
  not occur has no components, which is a result like any other. The scan does not
  know which component is being resolved and leaves none out for that reason.
\<close>

theorem referencedComponents_scan:
  "distinct (referencedComponents str) \<and>
   (\<forall>c. c \<in> set (referencedComponents str) \<longleftrightarrow> references (parseContent str) c) \<and>
   (\<forall>c \<in> set (referencedComponents str).
      c \<noteq> [] \<and> list_all componentChar c \<and> \<not> prefix kiboSegment c) \<and>
   (\<forall>pre c post.
      parseContent str = pre @ componentsPath @ c @ post \<and>
      (pre = [] \<or> \<not> componentChar (last pre)) \<and> c \<noteq> [] \<and>
      list_all componentChar c \<and> \<not> prefix kiboSegment c \<and>
      (post = [] \<or> \<not> componentChar (hd post)) \<longrightarrow>
        c \<in> set (referencedComponents str)) \<and>
   ((\<nexists>pre post. parseContent str = pre @ componentsPath @ post) \<longrightarrow>
      referencedComponents str = [])"
proof (intro conjI)
  show "distinct (referencedComponents str)"
    by (rule distinct_referencedComponents)
  show "\<forall>c. c \<in> set (referencedComponents str) \<longleftrightarrow> references (parseContent str) c"
    by (simp add: referencedComponents_references)
  show "\<forall>c \<in> set (referencedComponents str).
      c \<noteq> [] \<and> list_all componentChar c \<and> \<not> prefix kiboSegment c"
    by (auto simp: referencedComponents_references references_def wordReference_def)
  show "\<forall>pre c post.
      parseContent str = pre @ componentsPath @ c @ post \<and>
      (pre = [] \<or> \<not> componentChar (last pre)) \<and> c \<noteq> [] \<and>
      list_all componentChar c \<and> \<not> prefix kiboSegment c \<and>
      (post = [] \<or> \<not> componentChar (hd post)) \<longrightarrow>
        c \<in> set (referencedComponents str)"
  proof (intro allI impI, elim conjE)
    fix pre c post
    assume t: "parseContent str = pre @ componentsPath @ c @ post"
      and b: "pre = [] \<or> \<not> componentChar (last pre)" "post = [] \<or> \<not> componentChar (hd post)"
      and c: "c \<noteq> []" "list_all componentChar c" "\<not> prefix kiboSegment c"
    from c have "wordReference [] c" by (simp add: wordReference_def)
    with t b have "references (parseContent str) c"
      unfolding references_def by (intro exI[of _ pre] exI[of _ "[]"] exI[of _ post]) simp
    then show "c \<in> set (referencedComponents str)"
      by (simp add: referencedComponents_references)
  qed
  show "(\<nexists>pre post. parseContent str = pre @ componentsPath @ post) \<longrightarrow>
      referencedComponents str = []"
  proof
    assume none: "\<nexists>pre post. parseContent str = pre @ componentsPath @ post"
    show "referencedComponents str = []"
    proof (cases "referencedComponents str")
      case Nil
      then show ?thesis .
    next
      case (Cons c cs)
      then have "references (parseContent str) c"
        by (simp add: referencedComponents_references[symmetric])
      then obtain pre u post where
        "parseContent str = (pre @ u) @ componentsPath @ (c @ post)"
        by (auto simp: references_def)
      with none show ?thesis by blast
    qed
  qed
qed

text \<open>
  A text with a registry path, a path under \<open>kibo-ui/\<close> and \<open>button\<close> twice: the
  components are \<open>button\<close> and \<open>icon\<close>.
\<close>

lemma scanned_example:
  \<open>referencedComponents
     ''import "@/components/ui/button"; import '@/registry/new-york/ui/icon'; export * from "@/components/ui/kibo-ui/x"; import "@/components/ui/button"'' =
   [''button'', ''icon'']\<close>
  by code_simp

theorem referencedComponents_scan_witness:
  \<open>distinct (referencedComponents
     ''import "@/components/ui/button"; import '@/registry/new-york/ui/icon'; export * from "@/components/ui/kibo-ui/x"; import "@/components/ui/button"'') \<and>
   referencedComponents
     ''import "@/components/ui/button"; import '@/registry/new-york/ui/icon'; export * from "@/components/ui/kibo-ui/x"; import "@/components/ui/button"'' =
   [''button'', ''icon''] \<and>
   references (parseContent
     ''import "@/components/ui/button"; import '@/registry/new-york/ui/icon'; export * from "@/components/ui/kibo-ui/x"; import "@/components/ui/button"'')
     ''icon'' \<and>
   \<not> references (parseContent
     ''import "@/components/ui/button"; import '@/registry/new-york/ui/icon'; export * from "@/components/ui/kibo-ui/x"; import "@/components/ui/button"'')
     ''kibo-ui/x'' \<and>
   \<not> prefix kiboSegment ''button'' \<and> \<not> prefix kiboSegment ''icon'' \<and>
   referencedComponents ''export {}'' = []\<close>
proof -
  let ?T = \<open>''import "@/components/ui/button"; import '@/registry/new-york/ui/icon'; export * from "@/components/ui/kibo-ui/x"; import "@/components/ui/button"''\<close>
  note scan = referencedComponents_scan[of ?T]
  from scan have "distinct (referencedComponents ?T)" by (rule conjunct1)
  moreover from scan have
    iff: "\<And>c. references (parseContent ?T) c \<longleftrightarrow> c \<in> set (referencedComponents ?T)"
    by blast
  have "references (parseContent ?T) ''icon''" "\<not> references (parseContent ?T) ''kibo-ui/x''"
    unfolding iff scanned_example by simp_all
  moreover have "\<not> prefix kiboSegment ''button''" "\<not> prefix kiboSegment ''icon''"
    by (simp_all add: kiboSegment_def)
  ultimately show ?thesis
    using scanned_example referencedComponents_examples(4) by simp
qed

text \<open>
  The record \<open>self\<close> names itself in its own text, and the scan of that text returns
  \<open>self\<close>.
\<close>

theorem self_reference_scanned_counterexample:
  "map_option (\<lambda>m. referencedComponents (firstContent (shadcn_files m)) = [shadcn_name m])
     (circularShadcn ''self'') = Some True"
  by code_simp

subsection \<open>Preview\<close>

lemma Preview_Inr:
  assumes "Preview env props = Some (Inr out)"
  shows "\<exists>r. assemble env props = Some (Inr r) \<and> out = render r"
  using assms by (auto simp: Preview_def split: option.splits sum.splits)

lemma customSetupDependencies_apply:
  "customSetupDependencies deps k =
     (if k = ''date-fns'' then Some ''latest''
      else case deps k of
             Some v \<Rightarrow> Some v
           | None \<Rightarrow>
               if k \<in> {''@radix-ui/react-icons'', ''clsx'', ''tailwind-merge'',
                        ''class-variance-authority'', ''tailwindcss'', ''tailwindcss-animate''}
               then Some ''latest'' else None)"
  by (simp add: customSetupDependencies_def map_add_def split: option.splits)

lemma customSetupDevDependencies_apply:
  "customSetupDevDependencies deps k =
     (case deps k of
        Some v \<Rightarrow> Some v
      | None \<Rightarrow> if k \<in> {''autoprefixer'', ''postcss''} then Some ''latest'' else None)"
  by (simp add: customSetupDevDependencies_def map_add_def split: option.splits)

text \<open>
  C5, as the code has it. When \<open>Preview\<close> renders, every package that the resolution
  has put into \<open>dependencies\<close> has the resolution's version in the final runtime map,
  but for \<open>date-fns\<close>, which the object literal writes behind the spread and which is
  \<open>latest\<close> whatever the resolution says; the six packages written in front of the
  spread are \<open>latest\<close> where the resolution does not name them. Every package of
  \<open>devDependencies\<close> has the resolution's version in the final map, and \<open>autoprefixer\<close>
  and \<open>postcss\<close> are \<open>latest\<close> where the resolution does not name them.
\<close>

theorem customSetup_baseline:
  assumes "Preview env props = Some (Inr out)"
  shows "\<exists>r. assemble env props = Some (Inr r) \<and>
           (\<forall>k v. dependencies r k = Some v \<and> k \<noteq> ''date-fns'' \<longrightarrow>
                    setup_dependencies out k = Some v) \<and>
           setup_dependencies out ''date-fns'' = Some ''latest'' \<and>
           (\<forall>k \<in> {''@radix-ui/react-icons'', ''clsx'', ''tailwind-merge'',
                    ''class-variance-authority'', ''tailwindcss'', ''tailwindcss-animate''}.
               dependencies r k = None \<longrightarrow> setup_dependencies out k = Some ''latest'') \<and>
           (\<forall>k v. devDependencies r k = Some v \<longrightarrow> setup_devDependencies out k = Some v) \<and>
           (\<forall>k \<in> {''autoprefixer'', ''postcss''}.
               devDependencies r k = None \<longrightarrow> setup_devDependencies out k = Some ''latest'')"
proof -
  from Preview_Inr[OF assms] obtain r where
    r: "assemble env props = Some (Inr r)" and out: "out = render r" by blast
  have "(\<forall>k v. dependencies r k = Some v \<and> k \<noteq> ''date-fns'' \<longrightarrow>
            setup_dependencies out k = Some v)"
    by (simp add: out render_def customSetupDependencies_apply)
  moreover have "setup_dependencies out ''date-fns'' = Some ''latest''"
    by (simp add: out render_def customSetupDependencies_apply)
  moreover have "\<forall>k \<in> {''@radix-ui/react-icons'', ''clsx'', ''tailwind-merge'',
                    ''class-variance-authority'', ''tailwindcss'', ''tailwindcss-animate''}.
               dependencies r k = None \<longrightarrow> setup_dependencies out k = Some ''latest''"
    by (simp add: out render_def customSetupDependencies_apply)
  moreover have "\<forall>k v. devDependencies r k = Some v \<longrightarrow> setup_devDependencies out k = Some v"
    by (simp add: out render_def customSetupDevDependencies_apply)
  moreover have "\<forall>k \<in> {''autoprefixer'', ''postcss''}.
               devDependencies r k = None \<longrightarrow> setup_devDependencies out k = Some ''latest''"
    by (simp add: out render_def customSetupDevDependencies_apply)
  ultimately show ?thesis using r by blast
qed

lemma demo_assembled:
  "(case assemble exampleStore (exampleProps ''demo'' None) of
      Some (Inr r) \<Rightarrow>
        dependencies r ''clsx'' = Some ''2.1.0'' \<and> dependencies r ''tailwindcss'' = None \<and>
        devDependencies r ''postcss'' = Some ''8.4.0'' \<and> devDependencies r ''autoprefixer'' = None
    | _ \<Rightarrow> False)"
  by code_simp

text \<open>
  The record \<open>demo\<close> declares \<open>clsx@2.1.0\<close> and the dev package \<open>postcss@8.4.0\<close>: both
  replace their baseline entries.
\<close>

theorem customSetup_baseline_witness:
  "\<exists>out. Preview exampleStore (exampleProps ''demo'' None) = Some (Inr out) \<and>
      setup_dependencies out ''clsx'' = Some ''2.1.0'' \<and>
      setup_dependencies out ''tailwindcss'' = Some ''latest'' \<and>
      setup_dependencies out ''date-fns'' = Some ''latest'' \<and>
      setup_devDependencies out ''postcss'' = Some ''8.4.0'' \<and>
      setup_devDependencies out ''autoprefixer'' = Some ''latest''"
proof -
  from demo_assembled obtain r0 where
    r0: "assemble exampleStore (exampleProps ''demo'' None) = Some (Inr r0)"
    and v: "dependencies r0 ''clsx'' = Some ''2.1.0''" "dependencies r0 ''tailwindcss'' = None"
      "devDependencies r0 ''postcss'' = Some ''8.4.0''" "devDependencies r0 ''autoprefixer'' = None"
    by (auto split: option.splits sum.splits)
  then have p: "Preview exampleStore (exampleProps ''demo'' None) = Some (Inr (render r0))"
    by (simp add: Preview_def)
  from customSetup_baseline[OF p] r0 v show ?thesis
    using p by auto
qed

text \<open>
  The caller asks for \<open>date-fns@2.30.0\<close>: the accumulator holds \<open>2.30.0\<close>, and the final
  map holds \<open>latest\<close>.
\<close>

theorem date_fns_not_overridable_counterexample:
  "(case assemble exampleStore (exampleProps ''demo'' (Some [(''0'', ''date-fns@2.30.0'')])) of
      Some (Inr r) \<Rightarrow> dependencies r ''date-fns'' = Some ''2.30.0''
    | _ \<Rightarrow> False) \<and>
   (case Preview exampleStore (exampleProps ''demo'' (Some [(''0'', ''date-fns@2.30.0'')])) of
      Some (Inr out) \<Rightarrow> setup_dependencies out ''date-fns'' = Some ''latest''
    | _ \<Rightarrow> False)"
  by code_simp

text \<open>
  C1, on the code. The demo imports \<open>button\<close>, and the text of \<open>button\<close> imports \<open>icon\<close>.
  \<open>Preview\<close> renders with the file of the entry and the file of \<open>button\<close>, and without
  a file for \<open>icon\<close>: the inner call that loads \<open>icon\<close> writes into objects of its own,
  which nobody reads. The package of \<open>icon\<close> is lost the same way.
\<close>

theorem transitive_files_dropped:
  "(case Preview exampleStore (exampleProps ''demo'' None) of
      Some (Inr out) \<Rightarrow>
        provider_files out ''/App.tsx'' \<noteq> None \<and>
        provider_files out ''/components/ui/button.tsx'' \<noteq> None \<and>
        provider_files out ''/components/ui/icon.tsx'' = None \<and>
        setup_dependencies out ''@radix-ui/react-slot'' = Some ''latest'' \<and>
        setup_dependencies out ''lucide-react'' = None
    | _ \<Rightarrow> False)"
  by code_simp

text \<open>
  C4, on the code. The record \<open>broken\<close> lists the registry dependency \<open>missing\<close>, which
  has no record: the import of line 131 stands in no \<open>try\<close>, and \<open>Preview\<close> rejects.
\<close>

theorem registry_dependency_failure_rejects:
  "Preview exampleStore (exampleProps ''broken'' None) =
     Some (Inl (ModuleNotFound ''./shadcn/missing.json''))"
proof -
  have "map_option (map_sum id (\<lambda>out. ())) (Preview exampleStore (exampleProps ''broken'' None)) =
     Some (Inl (ModuleNotFound ''./shadcn/missing.json''))"
    by code_simp
  then show ?thesis
    by (cases "Preview exampleStore (exampleProps ''broken'' None)") (auto simp: map_sum_def split: sum.splits)
qed

text \<open>
  C7, as the code has it. Let \<open>k\<close> be the name that the value \<open>dep\<close> parses to, and let
  no value behind \<open>dep\<close> in the merged object parse to \<open>k\<close>. Then the merge leaves the
  version of \<open>dep\<close> under \<open>k\<close>, whatever the target held for \<open>k\<close> before, be it the
  value of an earlier merge; there is no error, and a key that none of the values
  names keeps what the target held. \<open>Preview\<close> merges the caller's object into
  \<open>dependencies\<close> last, so the accumulator ends with the caller's version for every
  name the caller's values parse to. The entry's own key \<open>key\<close> plays no part. (The
  key \<open>__proto__\<close> is never a key of the accumulator: an assignment does not store it.)
\<close>

theorem caller_dependencies_merged_last:
  assumes "k = propertyKey (dep_name (parseDependencyVersion dep))"
      and "k \<noteq> ''__proto__''"
      and "\<forall>d \<in> set after. propertyKey (dep_name (parseDependencyVersion (snd d))) \<noteq> k"
  shows "processDependencies (Some (before @ (key, dep) # after)) target k =
           Some (dep_version (parseDependencyVersion dep)) \<and>
         ((\<forall>d \<in> set (before @ (key, dep) # after).
              propertyKey (dep_name (parseDependencyVersion (snd d))) \<noteq> k') \<longrightarrow>
            processDependencies (Some (before @ (key, dep) # after)) target k' = target k') \<and>
         (assemble env props = Some (Inr r) \<and>
          props_dependencies props = Some (before @ (key, dep) # after) \<longrightarrow>
            dependencies r k = Some (dep_version (parseDependencyVersion dep)))"
proof -
  have first: "processDependencies (Some (before @ (key, dep) # after)) t k =
           Some (dep_version (parseDependencyVersion dep))" for t
    using assms by (rule processDependencies_last_write)
  have "dependencies r k = Some (dep_version (parseDependencyVersion dep))"
    if "assemble env props = Some (Inr r)"
      "props_dependencies props = Some (before @ (key, dep) # after)"
  proof -
    from that(1) obtain acc where
      "dependencies r = processDependencies (props_dependencies props) acc"
      using assemble_dependencies by blast
    with that(2) first[of acc] show ?thesis by simp
  qed
  moreover have "processDependencies (Some (before @ (key, dep) # after)) target k' = target k'"
    if "\<forall>d \<in> set (before @ (key, dep) # after).
          propertyKey (dep_name (parseDependencyVersion (snd d))) \<noteq> k'"
    using that by (rule processDependencies_other)
  ultimately show ?thesis using first by blast
qed

text \<open>
  The record \<open>demo\<close> declares \<open>clsx@2.1.0\<close>; the caller names \<open>clsx\<close> twice, and the
  accumulator ends with the caller's last version.
\<close>

lemma caller_assembled:
  "(case assemble exampleStore
           (exampleProps ''demo'' (Some [(''0'', ''clsx@1.0.0''), (''1'', ''clsx@3.0.0'')])) of
      Some (Inr r) \<Rightarrow> True
    | _ \<Rightarrow> False)"
  by code_simp

theorem caller_dependencies_merged_last_witness:
  "processDependencies (Some [(''0'', ''clsx@1.0.0''), (''1'', ''clsx@3.0.0'')])
     [''clsx'' \<mapsto> ''2.1.0''] ''clsx'' = Some ''3.0.0'' \<and>
   processDependencies (Some [(''0'', ''clsx@1.0.0''), (''1'', ''clsx@3.0.0'')])
     [''zod'' \<mapsto> ''3.22.0''] ''zod'' = Some ''3.22.0'' \<and>
   (\<exists>r. assemble exampleStore
           (exampleProps ''demo'' (Some [(''0'', ''clsx@1.0.0''), (''1'', ''clsx@3.0.0'')])) =
           Some (Inr r) \<and>
        dependencies r ''clsx'' = Some ''3.0.0'')"
proof -
  from caller_assembled obtain r where
    r: "assemble exampleStore
          (exampleProps ''demo'' (Some [(''0'', ''clsx@1.0.0''), (''1'', ''clsx@3.0.0'')])) =
        Some (Inr r)"
    by (auto split: option.splits sum.splits)
  have p: "parseDependencyVersion ''clsx@3.0.0'' = \<lparr>dep_name = Some ''clsx'', dep_version = ''3.0.0''\<rparr>"
    "parseDependencyVersion ''clsx@1.0.0'' = \<lparr>dep_name = Some ''clsx'', dep_version = ''1.0.0''\<rparr>"
    by (simp_all add: parseDependencyVersion_def dependencyMatch_def lineTerminator_def)
  from caller_dependencies_merged_last[of "''clsx''" "''clsx@3.0.0''" "[]"
      "[(''0'', ''clsx@1.0.0'')]" "''1''" "[''clsx'' \<mapsto> ''2.1.0'']" "''zod''" exampleStore
      "exampleProps ''demo'' (Some [(''0'', ''clsx@1.0.0''), (''1'', ''clsx@3.0.0'')])" r]
    caller_dependencies_merged_last[of "''clsx''" "''clsx@3.0.0''" "[]"
      "[(''0'', ''clsx@1.0.0'')]" "''1''" "[''zod'' \<mapsto> ''3.22.0'']" "''zod''" exampleStore
      "exampleProps ''demo'' (Some [(''0'', ''clsx@1.0.0''), (''1'', ''clsx@3.0.0'')])" r]
    r p
  show ?thesis by (simp add: propertyKey_def exampleProps_def)
qed

text \<open>
  The record \<open>demo\<close> declares \<open>clsx@2.1.0\<close>, and the caller passes \<open>{"clsx": "3.0.0"}\<close>:
  the key \<open>clsx\<close> is shared, and the accumulator ends with the registry's \<open>2.1.0\<close> for
  it; the caller's version has become a key of its own.
\<close>

theorem caller_key_not_read_counterexample:
  "(case assemble exampleStore (exampleProps ''demo'' (Some [(''clsx'', ''3.0.0'')])) of
      Some (Inr r) \<Rightarrow>
        dependencies r ''clsx'' = Some ''2.1.0'' \<and> dependencies r ''3.0.0'' = Some ''latest''
    | _ \<Rightarrow> False)"
  by code_simp

end
